theory Spec2Isabelle
  imports Main
begin

section \<open>The pattern store of the step sequencer (src/assets/js/pattern.js)\<close>

text \<open>
  \<^verbatim>\<open>App.Pattern\<close> keeps four private variables in its closure: the array
  \<^verbatim>\<open>patterns\<close> of channel objects, the lookup object \<^verbatim>\<open>channelIndex\<close>,
  and the numbers \<^verbatim>\<open>currentStep\<close> and \<^verbatim>\<open>stepsPerChannel\<close>. Its private
  functions are subscribed to events and mutate these variables. Here the closure is a
  record, and every handler is a function from the record to the updated record.

  Channel identifiers and step counts are documented as \<^verbatim>\<open>{Number}\<close>; they are
  modelled as unbounded integers. Every steps array is created by the store itself
  (a fresh array literal or a \<^verbatim>\<open>slice\<close>), so no two channels share an array and the
  arrays hold booleans only; a steps array is a \<open>bool list\<close>.
\<close>

subsection \<open>JavaScript values and array primitives\<close>

text \<open>
  The value handed to \<^verbatim>\<open>stepToggled\<close> as \<^verbatim>\<open>on\<close> is cast with \<^verbatim>\<open>!!on\<close>;
  \<open>to_boolean\<close> is that cast on the primitive values an event can carry.
\<close>

datatype jsval =
  JUndefined
| JNull
| JBool bool
| JNumber int
| JString string

fun to_boolean :: "jsval \<Rightarrow> bool" where
  "to_boolean JUndefined = False"
| "to_boolean JNull = False"
| "to_boolean (JBool b) = b"
| "to_boolean (JNumber n) = (n \<noteq> 0)"
| "to_boolean (JString s) = (s \<noteq> [])"

text \<open>
  \<^verbatim>\<open>xs[i]\<close> for an integer \<open>i\<close>: the element, or \<^verbatim>\<open>undefined\<close> (here \<open>None\<close>)
  when \<open>i\<close> is negative or past the end.
\<close>

definition js_get :: "'a list \<Rightarrow> int \<Rightarrow> 'a option" where
  "js_get xs i = (if 0 \<le> i \<and> i < int (length xs) then Some (xs ! nat i) else None)"

text \<open>
  \<^verbatim>\<open>xs.slice(0, e)\<close>: a negative end counts from the end of the array, and the end is
  clamped to the array.
\<close>

definition js_slice0 :: "'a list \<Rightarrow> int \<Rightarrow> 'a list" where
  "js_slice0 xs e =
     (if e < 0 then take (nat (int (length xs) + e)) xs else take (nat e) xs)"

text \<open>
  \<^verbatim>\<open>xs.splice(i, 1)\<close> for a start \<open>i \<ge> 0\<close>: the element at \<open>i\<close> is removed; a
  start past the end removes nothing.
\<close>

definition js_splice1 :: "nat \<Rightarrow> 'a list \<Rightarrow> 'a list" where
  "js_splice1 i xs = take i xs @ drop (Suc i) xs"

text \<open>
  The loop \<^verbatim>\<open>for (i = 0; i < n; i += 1) { xs.push(false); }\<close>, by the number of
  iterations left.
\<close>

primrec push_off :: "nat \<Rightarrow> bool list \<Rightarrow> bool list" where
  "push_off 0 xs = xs"
| "push_off (Suc n) xs = push_off n (xs @ [False])"

subsection \<open>The state\<close>

record ChannelPattern =
  channelId :: int
  steps :: "bool list"

record store =
  patterns :: "ChannelPattern list"
  channelIndex :: "int \<rightharpoonup> nat"
  currentStep :: int
  stepsPerChannel :: int

text \<open>The initial values of the four variables (lines 30 to 50).\<close>

definition init :: store where
  "init = \<lparr>patterns = [], channelIndex = Map.empty, currentStep = - 1, stepsPerChannel = 16\<rparr>"

subsection \<open>The channel index\<close>

text \<open>
  \<^verbatim>\<open>rehashChannelIndex\<close>: the index is emptied, then the loop over \<open>patterns\<close>
  stores each position under its channel's id (a later position overwrites an earlier one).
\<close>

fun rehash_loop :: "nat \<Rightarrow> ChannelPattern list \<Rightarrow> (int \<rightharpoonup> nat) \<Rightarrow> (int \<rightharpoonup> nat)" where
  "rehash_loop i [] m = m"
| "rehash_loop i (p # ps) m = rehash_loop (Suc i) ps (m(channelId p \<mapsto> i))"

definition rehashChannelIndex :: "store \<Rightarrow> store" where
  "rehashChannelIndex s = s\<lparr>channelIndex := rehash_loop 0 (patterns s) Map.empty\<rparr>"

text \<open>
  \<^verbatim>\<open>getChannelById\<close> returns a reference to an object of \<open>patterns\<close>, or
  \<^verbatim>\<open>false\<close>. \<open>channelRef\<close> is the position of that object (the callers mutate the
  object through the reference, which here is an update of \<open>patterns\<close> at that
  position); \<open>getChannelById\<close> is the object itself. \<open>None\<close> stands for \<^verbatim>\<open>false\<close>:
  the id has no entry in the index, or the entry points past the end of \<open>patterns\<close>.
\<close>

definition channelRef :: "store \<Rightarrow> int \<Rightarrow> nat option" where
  "channelRef s cid =
     (case channelIndex s cid of
        None \<Rightarrow> None
      | Some i \<Rightarrow> if i < length (patterns s) then Some i else None)"

definition getChannelById :: "store \<Rightarrow> int \<Rightarrow> ChannelPattern option" where
  "getChannelById s cid = map_option (\<lambda>i. patterns s ! i) (channelRef s cid)"

subsection \<open>The handlers\<close>

text \<open>
  \<^verbatim>\<open>correctStepCount\<close>. Growing runs the outer loop \<open>desiredStepCount - stepsPerChannel\<close>
  times, and each round pushes one \<^verbatim>\<open>false\<close> onto every channel; shrinking slices
  every channel.
\<close>

definition push_round :: "ChannelPattern list \<Rightarrow> ChannelPattern list" where
  "push_round ps = map (\<lambda>p. p\<lparr>steps := steps p @ [False]\<rparr>) ps"

primrec grow_loop :: "nat \<Rightarrow> ChannelPattern list \<Rightarrow> ChannelPattern list" where
  "grow_loop 0 ps = ps"
| "grow_loop (Suc n) ps = grow_loop n (push_round ps)"

definition correctStepCount :: "int \<Rightarrow> store \<Rightarrow> store" where
  "correctStepCount desiredStepCount s =
     (if stepsPerChannel s = desiredStepCount then s
      else if desiredStepCount > stepsPerChannel s then
        s\<lparr>patterns := grow_loop (nat (desiredStepCount - stepsPerChannel s)) (patterns s),
          stepsPerChannel := desiredStepCount\<rparr>
      else
        s\<lparr>patterns := map (\<lambda>p. p\<lparr>steps := js_slice0 (steps p) desiredStepCount\<rparr>) (patterns s),
          stepsPerChannel := desiredStepCount\<rparr>)"

text \<open>
  \<^verbatim>\<open>addChannel\<close>. A channel found by \<open>getChannelById\<close> always has a steps array, so
  \<^verbatim>\<open>isNew\<close> is true exactly when nothing was found. The fresh steps array is filled
  by a loop that runs \<open>stepsPerChannel\<close> times.
\<close>

definition addChannel :: "int \<Rightarrow> store \<Rightarrow> store" where
  "addChannel cid s =
     (let fresh = push_off (nat (stepsPerChannel s)) [] in
      case channelRef s cid of
        Some i \<Rightarrow> s\<lparr>patterns := (patterns s)[i := (patterns s ! i)\<lparr>steps := fresh\<rparr>]\<rparr>
      | None \<Rightarrow>
          rehashChannelIndex
            (s\<lparr>patterns := patterns s @ [\<lparr>channelId = cid, steps = fresh\<rparr>]\<rparr>))"

text \<open>\<^verbatim>\<open>removeChannel\<close> reads the index directly, without the bound check.\<close>

definition removeChannel :: "int \<Rightarrow> store \<Rightarrow> store" where
  "removeChannel cid s =
     (case channelIndex s cid of
        None \<Rightarrow> s
      | Some i \<Rightarrow> rehashChannelIndex (s\<lparr>patterns := js_splice1 i (patterns s)\<rparr>))"

text \<open>
  \<^verbatim>\<open>stepToggled\<close>. The steps hold booleans only, so \<^verbatim>\<open>channel.steps[stepIndex]\<close> is
  \<^verbatim>\<open>undefined\<close> exactly when \<open>js_get\<close> is \<open>None\<close>.
\<close>

definition stepToggled :: "int \<Rightarrow> int \<Rightarrow> jsval \<Rightarrow> store \<Rightarrow> store" where
  "stepToggled cid stepIndex on s =
     (case channelRef s cid of
        None \<Rightarrow> s
      | Some i \<Rightarrow>
          (case js_get (steps (patterns s ! i)) stepIndex of
             None \<Rightarrow> s
           | Some _ \<Rightarrow>
               s\<lparr>patterns := (patterns s)
                    [i := (patterns s ! i)
                       \<lparr>steps := (steps (patterns s ! i))[nat stepIndex := to_boolean on]\<rparr>]\<rparr>))"

text \<open>
  \<^verbatim>\<open>clearPattern\<close>: \<open>emptyPattern\<close> is filled by a loop, and every channel gets its
  own slice of it.
\<close>

definition clearPattern :: "store \<Rightarrow> store" where
  "clearPattern s =
     (let emptyPattern = push_off (nat (stepsPerChannel s)) [] in
      s\<lparr>patterns :=
          map (\<lambda>p. p\<lparr>steps := js_slice0 emptyPattern (stepsPerChannel s)\<rparr>) (patterns s)\<rparr>)"

definition resetCurrentStep :: "store \<Rightarrow> store" where
  "resetCurrentStep s = s\<lparr>currentStep := - 1\<rparr>"

text \<open>
  \<^verbatim>\<open>tick\<close> publishes events; the model returns them in the order of publication.
  \<open>StepTick c\<close> is \<^verbatim>\<open>'step.tick'\<close> with payload \<open>c\<close>, and \<open>ChannelTriggered cid\<close> is
  \<^verbatim>\<open>'channel.triggered.channel-' + cid\<close>. In the loop, \<^verbatim>\<open>undefined\<close> (a cursor outside
  the steps array) is falsy.
\<close>

datatype event = StepTick int | ChannelTriggered int

fun tick_loop :: "ChannelPattern list \<Rightarrow> int \<Rightarrow> event list" where
  "tick_loop [] c = []"
| "tick_loop (p # ps) c =
     (case js_get (steps p) c of
        Some True \<Rightarrow> ChannelTriggered (channelId p) # tick_loop ps c
      | _ \<Rightarrow> tick_loop ps c)"

definition tick :: "store \<Rightarrow> store \<times> event list" where
  "tick s =
     (let c1 = currentStep s + 1;
          c2 = (if c1 > stepsPerChannel s - 1 then 0 else c1);
          s' = s\<lparr>currentStep := c2\<rparr>
      in (s', StepTick c2 # tick_loop (patterns s') c2))"

subsection \<open>Event dispatch\<close>

text \<open>
  The subscriptions of lines 269 to 275: one constructor per subscribed event, with the
  event's payload. \<open>dispatch\<close> is the state after the handler has run, and \<open>run\<close> is
  the state after a sequence of events, handled one after the other.
\<close>

datatype operation =
  StepsPerChannelUpdate int
| ChannelAdded int
| ChannelRemoved int
| UiStepToggled int int jsval
| UiPatternClear
| UiTransportReset
| TempoStep

fun dispatch :: "operation \<Rightarrow> store \<Rightarrow> store" where
  "dispatch (StepsPerChannelUpdate n) s = correctStepCount n s"
| "dispatch (ChannelAdded cid) s = addChannel cid s"
| "dispatch (ChannelRemoved cid) s = removeChannel cid s"
| "dispatch (UiStepToggled cid k on) s = stepToggled cid k on s"
| "dispatch UiPatternClear s = clearPattern s"
| "dispatch UiTransportReset s = resetCurrentStep s"
| "dispatch TempoStep s = fst (tick s)"

fun run :: "operation list \<Rightarrow> store \<Rightarrow> store" where
  "run [] s = s"
| "run (x # xs) s = run xs (dispatch x s)"

subsection \<open>Invariants and payload domains\<close>

text \<open>
  \<open>steps_ok\<close>: every channel's steps array is as long as \<open>stepsPerChannel\<close> says.
  \<open>index_ok\<close>: no id occurs twice in \<open>patterns\<close>, and the index is what
  \<open>rehashChannelIndex\<close> would compute from \<open>patterns\<close>.
\<close>

definition steps_ok :: "store \<Rightarrow> bool" where
  "steps_ok s = (\<forall>p \<in> set (patterns s). int (length (steps p)) = stepsPerChannel s)"

definition index_ok :: "store \<Rightarrow> bool" where
  "index_ok s =
     (distinct (map channelId (patterns s)) \<and>
      channelIndex s = rehash_loop 0 (patterns s) Map.empty)"

text \<open>
  The payload of \<^verbatim>\<open>'steps-per-channel.update'\<close> is a step count; \<open>counts_from lo\<close> says
  that an event carries no step count below \<open>lo\<close>.
\<close>

fun counts_from :: "int \<Rightarrow> operation \<Rightarrow> bool" where
  "counts_from lo (StepsPerChannelUpdate n) = (lo \<le> n)"
| "counts_from lo _ = True"

section \<open>Properties of the model\<close>

subsection \<open>The loops in closed form\<close>

lemma push_off_replicate: "push_off n xs = xs @ replicate n False"
  by (induction n arbitrary: xs) simp_all

lemma push_round_length [simp]: "length (push_round ps) = length ps"
  by (simp add: push_round_def)

lemma grow_loop_map:
  "grow_loop n ps = map (\<lambda>p. p\<lparr>steps := steps p @ replicate n False\<rparr>) ps"
  by (induction n arbitrary: ps) (simp_all add: push_round_def o_def replicate_append_same)


lemma rehash_loop_ids:
  "map channelId ps = map channelId qs \<Longrightarrow> rehash_loop k ps m = rehash_loop k qs m"
proof (induction ps arbitrary: qs k m)
  case Nil
  then show ?case by simp
next
  case (Cons p ps)
  from Cons.prems obtain q qs' where q: "qs = q # qs'" "channelId p = channelId q"
    "map channelId ps = map channelId qs'"
    by (cases qs) auto
  have "rehash_loop (Suc k) ps (m(channelId q \<mapsto> k)) = rehash_loop (Suc k) qs' (m(channelId q \<mapsto> k))"
    by (rule Cons.IH[OF q(3)])
  with q show ?case by simp
qed

lemma rehash_loop_notin:
  "cid \<notin> channelId ` set ps \<Longrightarrow> rehash_loop k ps m cid = m cid"
  by (induction ps arbitrary: k m) auto

lemma rehash_loop_nth:
  "distinct (map channelId ps) \<Longrightarrow> j < length ps \<Longrightarrow>
     rehash_loop k ps m (channelId (ps ! j)) = Some (k + j)"
proof (induction ps arbitrary: k m j)
  case Nil
  then show ?case by simp
next
  case (Cons p ps)
  show ?case
  proof (cases j)
    case 0
    with Cons.prems show ?thesis by (simp add: rehash_loop_notin)
  next
    case (Suc j')
    with Cons.prems Cons.IH[of j' "Suc k"] show ?thesis by simp
  qed
qed

lemma rehash_loop_Some:
  "distinct (map channelId ps) \<Longrightarrow> rehash_loop k ps Map.empty cid = Some i \<Longrightarrow>
     k \<le> i \<and> i - k < length ps \<and> channelId (ps ! (i - k)) = cid"
proof -
  assume d: "distinct (map channelId ps)" and r: "rehash_loop k ps Map.empty cid = Some i"
  have "cid \<in> channelId ` set ps"
    using r rehash_loop_notin[of cid ps k Map.empty] by auto
  then obtain j where j: "j < length ps" "channelId (ps ! j) = cid"
    by (auto simp: in_set_conv_nth)
  with rehash_loop_nth[OF d j(1), of k Map.empty] r have "i = k + j" by simp
  with j show ?thesis by simp
qed

lemma fresh_steps: "push_off n [] = replicate n False"
  by (simp add: push_off_replicate)

lemma js_slice0_nonneg: "0 \<le> e \<Longrightarrow> js_slice0 xs e = take (nat e) xs"
  by (simp add: js_slice0_def)

lemma clear_slice: "js_slice0 (push_off (nat n) []) n = replicate (nat n) False"
  by (simp add: js_slice0_def fresh_steps)

lemma set_js_splice1: "p \<in> set (js_splice1 i xs) \<Longrightarrow> p \<in> set xs"
  unfolding js_splice1_def by (auto dest: in_set_takeD in_set_dropD)

lemma js_splice1_map: "map f (js_splice1 i xs) = js_splice1 i (map f xs)"
  by (simp add: js_splice1_def take_map drop_map)

lemma distinct_js_splice1: "distinct ys \<Longrightarrow> distinct (js_splice1 i ys)"
proof -
  assume d: "distinct ys"
  have a: "distinct (take i ys)" and b: "distinct (drop i ys)"
    and c: "set (take i ys) \<inter> set (drop i ys) = {}"
    using d distinct_append[of "take i ys" "drop i ys"] by simp_all
  have e: "drop (Suc i) ys = tl (drop i ys)" by (simp add: drop_Suc tl_drop)
  have "distinct (drop (Suc i) ys)" using b unfolding e by (rule distinct_tl)
  moreover have "set (drop (Suc i) ys) \<subseteq> set (drop i ys)"
    unfolding e by (cases "drop i ys") auto
  ultimately show ?thesis using a c unfolding js_splice1_def by auto
qed

subsection \<open>The handlers without their loops\<close>

lemma addChannel_found:
  "channelRef s cid = Some i \<Longrightarrow>
     addChannel cid s =
       s\<lparr>patterns := (patterns s)[i := (patterns s ! i)\<lparr>steps := replicate (nat (stepsPerChannel s)) False\<rparr>]\<rparr>"
  by (simp add: addChannel_def fresh_steps)

lemma addChannel_new:
  "channelRef s cid = None \<Longrightarrow>
     addChannel cid s =
       s\<lparr>patterns := patterns s @ [\<lparr>channelId = cid, steps = replicate (nat (stepsPerChannel s)) False\<rparr>],
         channelIndex := rehash_loop 0
            (patterns s @ [\<lparr>channelId = cid, steps = replicate (nat (stepsPerChannel s)) False\<rparr>])
            Map.empty\<rparr>"
  by (simp add: addChannel_def fresh_steps rehashChannelIndex_def Let_def)

lemma removeChannel_found:
  "channelIndex s cid = Some i \<Longrightarrow>
     removeChannel cid s =
       s\<lparr>patterns := js_splice1 i (patterns s),
         channelIndex := rehash_loop 0 (js_splice1 i (patterns s)) Map.empty\<rparr>"
  by (simp add: removeChannel_def rehashChannelIndex_def)

lemma removeChannel_absent: "channelIndex s cid = None \<Longrightarrow> removeChannel cid s = s"
  by (simp add: removeChannel_def)

lemma clearPattern_eq:
  "clearPattern s =
     s\<lparr>patterns := map (\<lambda>p. p\<lparr>steps := replicate (nat (stepsPerChannel s)) False\<rparr>) (patterns s)\<rparr>"
  by (simp add: clearPattern_def clear_slice)

lemma stepToggled_absent: "channelRef s cid = None \<Longrightarrow> stepToggled cid k on s = s"
  by (simp add: stepToggled_def)

lemma stepToggled_range:
  "channelRef s cid = Some i \<Longrightarrow> \<not> (0 \<le> k \<and> k < int (length (steps (patterns s ! i)))) \<Longrightarrow>
     stepToggled cid k on s = s"
  by (auto simp: stepToggled_def js_get_def)

lemma stepToggled_found:
  "channelRef s cid = Some i \<Longrightarrow> 0 \<le> k \<Longrightarrow> k < int (length (steps (patterns s ! i))) \<Longrightarrow>
     stepToggled cid k on s =
       s\<lparr>patterns := (patterns s)
            [i := (patterns s ! i)\<lparr>steps := (steps (patterns s ! i))[nat k := to_boolean on]\<rparr>]\<rparr>"
  by (simp add: stepToggled_def js_get_def)

lemma tick_eq:
  "tick s =
     (s\<lparr>currentStep := (if currentStep s + 1 > stepsPerChannel s - 1 then 0 else currentStep s + 1)\<rparr>,
      StepTick (if currentStep s + 1 > stepsPerChannel s - 1 then 0 else currentStep s + 1) #
      tick_loop (patterns s) (if currentStep s + 1 > stepsPerChannel s - 1 then 0 else currentStep s + 1))"
  by (simp add: tick_def Let_def)

lemma channelRef_Some: "channelRef s cid = Some i \<Longrightarrow> i < length (patterns s) \<and> channelIndex s cid = Some i"
  by (auto simp: channelRef_def split: option.splits if_splits)

subsection \<open>The handlers keep the step lengths\<close>

lemma steps_okI:
  "(\<And>p. p \<in> set (patterns s) \<Longrightarrow> int (length (steps p)) = stepsPerChannel s) \<Longrightarrow> steps_ok s"
  by (simp add: steps_ok_def)

lemma steps_okD:
  "steps_ok s \<Longrightarrow> p \<in> set (patterns s) \<Longrightarrow> int (length (steps p)) = stepsPerChannel s"
  by (simp add: steps_ok_def)

lemma in_set_updateD: "p \<in> set (xs[i := v]) \<Longrightarrow> p = v \<or> p \<in> set xs"
  using set_update_subset_insert[of xs i v] by auto

lemma steps_ok_correctStepCount:
  "0 \<le> d \<Longrightarrow> steps_ok s \<Longrightarrow> steps_ok (correctStepCount d s)"
  by (auto simp: steps_ok_def correctStepCount_def grow_loop_map js_slice0_nonneg)

lemma steps_ok_addChannel:
  assumes "0 \<le> stepsPerChannel s" "steps_ok s"
  shows "steps_ok (addChannel cid s)"
proof (cases "channelRef s cid")
  case None
  show ?thesis
    unfolding addChannel_new[OF None] using assms by (auto simp: steps_ok_def)
next
  case (Some i)
  show ?thesis
    unfolding addChannel_found[OF Some] using assms
    by (auto simp: steps_ok_def dest!: in_set_updateD)
qed

lemma steps_ok_removeChannel: "steps_ok s \<Longrightarrow> steps_ok (removeChannel cid s)"
  by (cases "channelIndex s cid")
    (auto simp: removeChannel_absent removeChannel_found steps_ok_def dest: set_js_splice1)

lemma steps_ok_stepToggled:
  assumes "steps_ok s"
  shows "steps_ok (stepToggled cid k on s)"
proof (cases "channelRef s cid")
  case None
  then show ?thesis using assms by (simp add: stepToggled_absent)
next
  case (Some i)
  show ?thesis
  proof (cases "0 \<le> k \<and> k < int (length (steps (patterns s ! i)))")
    case False
    then show ?thesis using assms Some by (simp add: stepToggled_range)
  next
    case True
    then have eq: "stepToggled cid k on s =
       s\<lparr>patterns := (patterns s)
            [i := (patterns s ! i)\<lparr>steps := (steps (patterns s ! i))[nat k := to_boolean on]\<rparr>]\<rparr>"
      using Some by (simp add: stepToggled_found)
    have "patterns s ! i \<in> set (patterns s)"
      using channelRef_Some[OF Some] by simp
    then show ?thesis
      unfolding eq using assms by (auto simp: steps_ok_def dest!: in_set_updateD)
  qed
qed

lemma steps_ok_clearPattern: "0 \<le> stepsPerChannel s \<Longrightarrow> steps_ok (clearPattern s)"
  by (auto simp: steps_ok_def clearPattern_eq)

lemma spc_dispatch:
  "stepsPerChannel (dispatch x s) = (case x of StepsPerChannelUpdate n \<Rightarrow> n | _ \<Rightarrow> stepsPerChannel s)"
proof (cases x)
  case (ChannelAdded cid)
  then show ?thesis
    by (cases "channelRef s cid") (simp_all add: addChannel_new addChannel_found)
next
  case (ChannelRemoved cid)
  then show ?thesis
    by (cases "channelIndex s cid") (simp_all add: removeChannel_absent removeChannel_found)
next
  case (UiStepToggled cid k on)
  then show ?thesis
    by (simp add: stepToggled_def split: option.splits)
qed (simp_all add: correctStepCount_def clearPattern_eq resetCurrentStep_def tick_eq)

lemma steps_ok_dispatch:
  assumes "counts_from 0 x" "0 \<le> stepsPerChannel s" "steps_ok s"
  shows "steps_ok (dispatch x s)"
proof (cases x)
  case TempoStep
  with assms show ?thesis by (simp add: steps_ok_def tick_eq)
next
  case UiTransportReset
  with assms show ?thesis by (simp add: steps_ok_def resetCurrentStep_def)
qed (use assms in \<open>simp_all add: steps_ok_correctStepCount steps_ok_addChannel steps_ok_removeChannel
      steps_ok_stepToggled steps_ok_clearPattern\<close>)

lemma spc_nonneg_dispatch:
  "counts_from 0 x \<Longrightarrow> 0 \<le> stepsPerChannel s \<Longrightarrow> 0 \<le> stepsPerChannel (dispatch x s)"
  unfolding spc_dispatch by (cases x) simp_all

lemma steps_ok_run:
  "list_all (counts_from 0) xs \<Longrightarrow> 0 \<le> stepsPerChannel s \<Longrightarrow> steps_ok s \<Longrightarrow>
     steps_ok (run xs s) \<and> 0 \<le> stepsPerChannel (run xs s)"
proof (induction xs arbitrary: s)
  case Nil
  then show ?case by simp
next
  case (Cons x xs)
  have "0 \<le> stepsPerChannel (dispatch x s)"
    using Cons.prems by (simp add: spc_nonneg_dispatch)
  moreover have "steps_ok (dispatch x s)"
    using Cons.prems by (simp add: steps_ok_dispatch)
  ultimately show ?case using Cons.IH Cons.prems by simp
qed

subsection \<open>The handlers keep the index\<close>

lemma index_ok_ids:
  assumes "index_ok s" "map channelId ps = map channelId (patterns s)"
  shows "index_ok (s\<lparr>patterns := ps\<rparr>)"
  using assms rehash_loop_ids[OF assms(2), of 0 Map.empty] by (simp add: index_ok_def)

lemma index_ok_nth:
  "index_ok s \<Longrightarrow> j < length (patterns s) \<Longrightarrow> channelIndex s (channelId (patterns s ! j)) = Some j"
  using rehash_loop_nth[of "patterns s" j 0 Map.empty] by (simp add: index_ok_def)

lemma index_ok_Some:
  "index_ok s \<Longrightarrow> channelIndex s cid = Some i \<Longrightarrow>
     i < length (patterns s) \<and> channelId (patterns s ! i) = cid"
  using rehash_loop_Some[of "patterns s" 0 cid i] by (simp add: index_ok_def)

lemma index_ok_None:
  "index_ok s \<Longrightarrow> (channelIndex s cid = None) = (cid \<notin> channelId ` set (patterns s))"
proof
  assume ok: "index_ok s" and n: "channelIndex s cid = None"
  show "cid \<notin> channelId ` set (patterns s)"
  proof
    assume "cid \<in> channelId ` set (patterns s)"
    then obtain j where "j < length (patterns s)" "channelId (patterns s ! j) = cid"
      by (auto simp: in_set_conv_nth)
    with index_ok_nth[OF ok, of j] n show False by simp
  qed
next
  assume "index_ok s" "cid \<notin> channelId ` set (patterns s)"
  then show "channelIndex s cid = None"
    using rehash_loop_notin[of cid "patterns s" 0 Map.empty] by (simp add: index_ok_def)
qed

lemma channelRef_index_ok: "index_ok s \<Longrightarrow> channelRef s cid = channelIndex s cid"
  by (auto simp: channelRef_def split: option.splits dest: index_ok_Some)

lemma map_channelId_update:
  "map channelId (ps[i := (ps ! i)\<lparr>steps := v\<rparr>]) = map channelId ps"
proof (rule nth_equalityI)
  show "length (map channelId (ps[i := (ps ! i)\<lparr>steps := v\<rparr>])) = length (map channelId ps)"
    by simp
next
  fix j assume "j < length (map channelId (ps[i := (ps ! i)\<lparr>steps := v\<rparr>]))"
  then have "j < length ps" by simp
  then show "map channelId (ps[i := (ps ! i)\<lparr>steps := v\<rparr>]) ! j = map channelId ps ! j"
    by (cases "j = i") simp_all
qed

lemma index_ok_correctStepCount: "index_ok s \<Longrightarrow> index_ok (correctStepCount d s)"
proof -
  assume ok: "index_ok s"
  have a: "map channelId (grow_loop n (patterns s)) = map channelId (patterns s)" for n
    by (simp add: grow_loop_map o_def)
  have b: "map channelId (map (\<lambda>p. p\<lparr>steps := js_slice0 (steps p) d\<rparr>) (patterns s))
             = map channelId (patterns s)"
    by (simp add: o_def)
  have c: "index_ok (t\<lparr>stepsPerChannel := d\<rparr>) = index_ok t" for t
    by (simp add: index_ok_def)
  show ?thesis
    using index_ok_ids[OF ok a] index_ok_ids[OF ok b] ok
    by (simp add: correctStepCount_def index_ok_def)
qed

lemma index_ok_addChannel:
  assumes ok: "index_ok s"
  shows "index_ok (addChannel cid s)"
proof (cases "channelRef s cid")
  case None
  then have "cid \<notin> channelId ` set (patterns s)"
    using ok by (simp add: channelRef_index_ok index_ok_None)
  then show ?thesis
    unfolding addChannel_new[OF None] using ok by (simp add: index_ok_def)
next
  case (Some i)
  show ?thesis
    unfolding addChannel_found[OF Some]
    by (rule index_ok_ids[OF ok]) (rule map_channelId_update)
qed

lemma index_ok_removeChannel:
  assumes ok: "index_ok s"
  shows "index_ok (removeChannel cid s)"
proof (cases "channelIndex s cid")
  case None
  then show ?thesis using ok by (simp add: removeChannel_absent)
next
  case (Some i)
  have "distinct (js_splice1 i (map channelId (patterns s)))"
    using ok by (intro distinct_js_splice1) (simp add: index_ok_def)
  then show ?thesis
    unfolding removeChannel_found[OF Some] by (simp add: index_ok_def js_splice1_map)
qed

lemma index_ok_stepToggled:
  assumes ok: "index_ok s"
  shows "index_ok (stepToggled cid k on s)"
proof (cases "channelRef s cid")
  case None
  then show ?thesis using ok by (simp add: stepToggled_absent)
next
  case (Some i)
  show ?thesis
  proof (cases "0 \<le> k \<and> k < int (length (steps (patterns s ! i)))")
    case False
    then show ?thesis using ok Some by (simp add: stepToggled_range)
  next
    case True
    then have eq: "stepToggled cid k on s =
       s\<lparr>patterns := (patterns s)
            [i := (patterns s ! i)\<lparr>steps := (steps (patterns s ! i))[nat k := to_boolean on]\<rparr>]\<rparr>"
      using Some by (simp add: stepToggled_found)
    show ?thesis
      unfolding eq by (rule index_ok_ids[OF ok]) (rule map_channelId_update)
  qed
qed

lemma index_ok_clearPattern: "index_ok s \<Longrightarrow> index_ok (clearPattern s)"
  unfolding clearPattern_eq by (rule index_ok_ids) (simp_all add: o_def)

lemma index_ok_dispatch: "index_ok s \<Longrightarrow> index_ok (dispatch x s)"
proof (cases x)
  case TempoStep
  assume "index_ok s"
  with TempoStep show ?thesis by (simp add: index_ok_def tick_eq)
next
  case UiTransportReset
  assume "index_ok s"
  with UiTransportReset show ?thesis by (simp add: index_ok_def resetCurrentStep_def)
qed (simp_all add: index_ok_correctStepCount index_ok_addChannel index_ok_removeChannel
      index_ok_stepToggled index_ok_clearPattern)

lemma index_ok_run: "index_ok s \<Longrightarrow> index_ok (run xs s)"
  by (induction xs arbitrary: s) (simp_all add: index_ok_dispatch)

lemma index_ok_init: "index_ok init"
  by (simp add: index_ok_def init_def)

lemma steps_ok_init: "steps_ok init"
  by (simp add: steps_ok_def init_def)

subsection \<open>The cursor\<close>

lemma currentStep_dispatch:
  "currentStep (dispatch x s) =
     (case x of
        TempoStep \<Rightarrow> (if currentStep s + 1 > stepsPerChannel s - 1 then 0 else currentStep s + 1)
      | UiTransportReset \<Rightarrow> - 1
      | _ \<Rightarrow> currentStep s)"
proof (cases x)
  case (ChannelAdded cid)
  then show ?thesis
    by (cases "channelRef s cid") (simp_all add: addChannel_new addChannel_found)
next
  case (ChannelRemoved cid)
  then show ?thesis
    by (cases "channelIndex s cid") (simp_all add: removeChannel_absent removeChannel_found)
next
  case (UiStepToggled cid k on)
  then show ?thesis
    by (simp add: stepToggled_def split: option.splits)
qed (simp_all add: correctStepCount_def clearPattern_eq resetCurrentStep_def tick_eq)

lemma cursor_run:
  "list_all (counts_from 1) xs \<Longrightarrow> - 1 \<le> currentStep s \<Longrightarrow> 1 \<le> stepsPerChannel s \<Longrightarrow>
     - 1 \<le> currentStep (run xs s) \<and> 1 \<le> stepsPerChannel (run xs s)"
proof (induction xs arbitrary: s)
  case Nil
  then show ?case by simp
next
  case (Cons x xs)
  have "- 1 \<le> currentStep (dispatch x s)"
    using Cons.prems unfolding currentStep_dispatch by (cases x) simp_all
  moreover have "1 \<le> stepsPerChannel (dispatch x s)"
    using Cons.prems unfolding spc_dispatch by (cases x) simp_all
  ultimately show ?case using Cons.IH Cons.prems by simp
qed

subsection \<open>Adding and removing channels\<close>

lemma js_splice1_Cons_Suc: "js_splice1 (Suc j) (x # xs) = x # js_splice1 j xs"
  by (simp add: js_splice1_def)

lemma js_splice1_filter:
  "distinct (map f xs) \<Longrightarrow> i < length xs \<Longrightarrow>
     js_splice1 i xs = filter (\<lambda>p. f p \<noteq> f (xs ! i)) xs"
proof (induction xs arbitrary: i)
  case Nil
  then show ?case by simp
next
  case (Cons x xs)
  show ?case
  proof (cases i)
    case 0
    have "\<forall>p \<in> set xs. f p \<noteq> f x"
      using Cons.prems(1) by (auto simp: image_iff)
    then have "filter (\<lambda>p. f p \<noteq> f x) xs = xs"
      by (simp add: filter_id_conv)
    with 0 show ?thesis by (simp add: js_splice1_def)
  next
    case (Suc j)
    with Cons.prems have j: "j < length xs" by simp
    then have "xs ! j \<in> set xs" by simp
    then have "f x \<noteq> f (xs ! j)"
      using Cons.prems(1) by auto
    moreover have "js_splice1 j xs = filter (\<lambda>p. f p \<noteq> f (xs ! j)) xs"
      using Cons.IH[OF _ j] Cons.prems(1) by simp
    ultimately show ?thesis
      using Suc by (simp add: js_splice1_Cons_Suc)
  qed
qed

lemma index_ok_lookup:
  "index_ok s \<Longrightarrow> i < length (patterns s) \<Longrightarrow>
     getChannelById s (channelId (patterns s ! i)) = Some (patterns s ! i)"
  by (simp add: getChannelById_def channelRef_index_ok index_ok_nth)

lemma index_ok_member:
  assumes "index_ok s" "cid \<in> channelId ` set (patterns s)"
  obtains i where "i < length (patterns s)" "channelId (patterns s ! i) = cid"
    "channelIndex s cid = Some i" "channelRef s cid = Some i"
proof -
  from assms(2) obtain i where i: "i < length (patterns s)" "channelId (patterns s ! i) = cid"
    by (auto simp: in_set_conv_nth)
  with index_ok_nth[OF assms(1) i(1)] have "channelIndex s cid = Some i" by simp
  moreover from this have "channelRef s cid = Some i"
    using assms(1) by (simp add: channelRef_index_ok)
  ultimately show ?thesis using i that by blast
qed

lemma ids_addChannel:
  assumes ok: "index_ok s"
  shows "channelId ` set (patterns (addChannel b s)) = insert b (channelId ` set (patterns s))"
proof (cases "channelRef s b")
  case None
  show ?thesis unfolding addChannel_new[OF None] by simp
next
  case (Some i)
  then have "channelIndex s b = Some i" using ok by (simp add: channelRef_index_ok)
  then have "b \<in> channelId ` set (patterns s)"
    using index_ok_None[OF ok, of b] by auto
  moreover have "map channelId (patterns (addChannel b s)) = map channelId (patterns s)"
    unfolding addChannel_found[OF Some] by (simp add: map_channelId_update)
  then have "channelId ` set (patterns (addChannel b s)) = channelId ` set (patterns s)"
    by (metis set_map)
  ultimately show ?thesis by auto
qed

lemma ids_removeChannel:
  assumes ok: "index_ok s"
  shows "patterns (removeChannel cid s) = filter (\<lambda>p. channelId p \<noteq> cid) (patterns s)"
proof (cases "channelIndex s cid")
  case None
  then have "\<forall>p \<in> set (patterns s). channelId p \<noteq> cid"
    using index_ok_None[OF ok, of cid] by auto
  then have "filter (\<lambda>p. channelId p \<noteq> cid) (patterns s) = patterns s"
    by (simp add: filter_id_conv)
  then show ?thesis using None by (simp add: removeChannel_absent)
next
  case (Some i)
  from index_ok_Some[OF ok Some] have i: "i < length (patterns s)" "channelId (patterns s ! i) = cid"
    by simp_all
  have "distinct (map channelId (patterns s))" using ok by (simp add: index_ok_def)
  from js_splice1_filter[OF this i(1)] show ?thesis
    unfolding removeChannel_found[OF Some] i(2) by simp
qed

subsection \<open>Resizing\<close>

lemma correctStepCount_grow:
  "stepsPerChannel s < d \<Longrightarrow>
      correctStepCount d s =
        s\<lparr>patterns := map (\<lambda>p. p\<lparr>steps := steps p @ replicate (nat (d - stepsPerChannel s)) False\<rparr>)
                        (patterns s),
          stepsPerChannel := d\<rparr>"
  by (simp add: correctStepCount_def grow_loop_map)

lemma correctStepCount_shrink:
  "0 \<le> d \<Longrightarrow> d < stepsPerChannel s \<Longrightarrow>
      correctStepCount d s =
        s\<lparr>patterns := map (\<lambda>p. p\<lparr>steps := take (nat d) (steps p)\<rparr>) (patterns s),
          stepsPerChannel := d\<rparr>"
  by (simp add: correctStepCount_def js_slice0_nonneg)

lemma shrink_grow_16:
  "stepsPerChannel s = 16 \<Longrightarrow> correctStepCount 16 (correctStepCount 8 s) =
        s\<lparr>patterns := map (\<lambda>p. p\<lparr>steps := take 8 (steps p) @ replicate 8 False\<rparr>) (patterns s)\<rparr>"
  by (cases s) (simp add: correctStepCount_def grow_loop_map js_slice0_nonneg o_def)

lemma shrink_grow_16_tail:
  assumes "length xs = 16"
  shows "length (take 8 xs @ replicate 8 False) = 16"
    and "\<forall>k \<in> {8..<16}. \<not> (take 8 xs @ replicate 8 False) ! k"
  using assms by (auto simp: nth_append)

subsection \<open>Reachable stores, and adding a channel\<close>

lemma reachable_ok:
  "index_ok (run ops init)"
  by (rule index_ok_run[OF index_ok_init])

lemma reachable_width:
  "list_all (counts_from 0) ops \<Longrightarrow> 0 \<le> stepsPerChannel (run ops init)"
  using steps_ok_run[of ops init] steps_ok_init by (simp add: init_def)

lemma reset_record:
  "channelId p = cid \<Longrightarrow> p\<lparr>steps := v\<rparr> = \<lparr>channelId = cid, steps = v\<rparr>"
  by (cases p) simp

lemma addChannel_registered:
  assumes ok: "index_ok s" and i: "i < length (patterns s)" "channelId (patterns s ! i) = cid"
  shows "addChannel cid s =
     s\<lparr>patterns := (patterns s)[i := \<lparr>channelId = cid, steps = replicate (nat (stepsPerChannel s)) False\<rparr>]\<rparr>"
proof -
  have "channelRef s cid = Some i"
    using index_ok_nth[OF ok i(1)] i ok by (simp add: channelRef_index_ok)
  from addChannel_found[OF this] show ?thesis
    by (simp add: reset_record[OF i(2)])
qed

lemma addChannel_unregistered:
  assumes ok: "index_ok s" and n: "cid \<notin> channelId ` set (patterns s)"
  shows "addChannel cid s =
     s\<lparr>patterns := patterns s @ [\<lparr>channelId = cid, steps = replicate (nat (stepsPerChannel s)) False\<rparr>],
       channelIndex := rehash_loop 0
          (patterns s @ [\<lparr>channelId = cid, steps = replicate (nat (stepsPerChannel s)) False\<rparr>])
          Map.empty\<rparr>"
proof -
  have "channelRef s cid = None"
    using index_ok_None[OF ok, of cid] n ok by (simp add: channelRef_index_ok)
  from addChannel_new[OF this] show ?thesis .
qed

lemma addChannel_lookup:
  assumes ok: "index_ok s"
  shows "getChannelById (addChannel cid s) cid =
     Some \<lparr>channelId = cid, steps = replicate (nat (stepsPerChannel s)) False\<rparr>"
proof -
  let ?fresh = "\<lparr>channelId = cid, steps = replicate (nat (stepsPerChannel s)) False\<rparr>"
  note ok' = index_ok_addChannel[OF ok, of cid]
  have "\<exists>j < length (patterns (addChannel cid s)). patterns (addChannel cid s) ! j = ?fresh"
  proof (cases "cid \<in> channelId ` set (patterns s)")
    case True
    from index_ok_member[OF ok True] obtain i where i: "i < length (patterns s)"
      "channelId (patterns s ! i) = cid" by blast
    show ?thesis
      unfolding addChannel_registered[OF ok i] using i(1) by (intro exI[of _ i]) simp
  next
    case False
    show ?thesis
      unfolding addChannel_unregistered[OF ok False]
      by (intro exI[of _ "length (patterns s)"]) simp
  qed
  then obtain j where j: "j < length (patterns (addChannel cid s))"
    "patterns (addChannel cid s) ! j = ?fresh" by blast
  from index_ok_lookup[OF ok' j(1)] show ?thesis
    unfolding j(2) by simp
qed

section \<open>The claims\<close>

text \<open>
  Claim C1 (step-length invariant). Start from the initial store and handle any sequence of
  events whose step-count payloads are not negative (the specification gives a positive
  integer as the payload of the step-count event). After each event of the sequence, that
  is after every prefix \<open>take n ops\<close>, every channel of \<open>patterns\<close> has a steps array
  whose length is the current \<open>stepsPerChannel\<close>.
\<close>

theorem step_length_invariant:
  "list_all (counts_from 0) ops \<Longrightarrow>
     \<forall>p \<in> set (patterns (run (take n ops) init)).
       int (length (steps p)) = stepsPerChannel (run (take n ops) init)"
proof -
  assume "list_all (counts_from 0) ops"
  then have "list_all (counts_from 0) (take n ops)"
    by (auto simp: list_all_iff dest: in_set_takeD)
  moreover have "0 \<le> stepsPerChannel init" by (simp add: init_def)
  ultimately have "steps_ok (run (take n ops) init)"
    using steps_ok_run[of "take n ops" init] steps_ok_init by blast
  then show ?thesis by (simp add: steps_ok_def)
qed

theorem step_length_invariant_witness:
  "list_all (counts_from 0)
     [ChannelAdded 1, UiStepToggled 1 3 (JBool True), StepsPerChannelUpdate 20, ChannelAdded 2,
      StepsPerChannelUpdate 8, TempoStep, ChannelRemoved 1, UiPatternClear] \<and>
   map (\<lambda>p. int (length (steps p)))
     (patterns (run (take 5
       [ChannelAdded 1, UiStepToggled 1 3 (JBool True), StepsPerChannelUpdate 20, ChannelAdded 2,
        StepsPerChannelUpdate 8, TempoStep, ChannelRemoved 1, UiPatternClear]) init)) =
     [stepsPerChannel (run (take 5
       [ChannelAdded 1, UiStepToggled 1 3 (JBool True), StepsPerChannelUpdate 20, ChannelAdded 2,
        StepsPerChannelUpdate 8, TempoStep, ChannelRemoved 1, UiPatternClear]) init),
      stepsPerChannel (run (take 5
       [ChannelAdded 1, UiStepToggled 1 3 (JBool True), StepsPerChannelUpdate 20, ChannelAdded 2,
        StepsPerChannelUpdate 8, TempoStep, ChannelRemoved 1, UiPatternClear]) init)]"
proof -
  let ?ops = "[ChannelAdded 1, UiStepToggled 1 3 (JBool True), StepsPerChannelUpdate 20, ChannelAdded 2,
      StepsPerChannelUpdate 8, TempoStep, ChannelRemoved 1, UiPatternClear]"
  have h: "list_all (counts_from 0) ?ops" by simp
  have l: "map channelId (patterns (run (take 5 ?ops) init)) = [1, 2]"
    by code_simp
  then obtain p q where pq: "patterns (run (take 5 ?ops) init) = [p, q]"
    by auto
  from step_length_invariant[OF h, of 5] h show ?thesis
    unfolding pq by simp
qed



text \<open>
  Claim C3 (cursor bounds), as the specification states it: after every event the cursor
  satisfies \<open>-1 \<le> currentStep < stepsPerChannel\<close>. It fails: three ticks move the
  cursor to 2, and a step-count change to 2 leaves it there.
\<close>

theorem cursor_bounds_counterexample:
  "\<not> (- 1 \<le> currentStep (run [TempoStep, TempoStep, TempoStep, StepsPerChannelUpdate 2] init) \<and>
      currentStep (run [TempoStep, TempoStep, TempoStep, StepsPerChannelUpdate 2] init)
        < stepsPerChannel (run [TempoStep, TempoStep, TempoStep, StepsPerChannelUpdate 2] init))"
  by (simp add: init_def tick_eq correctStepCount_def)

text \<open>
  Claim C3, amended. For every sequence of events with positive step counts, the store
  \<open>s\<close> it leads to has \<open>-1 \<le> currentStep\<close>. A tick puts the cursor in
  \<open>0 \<le> currentStep < stepsPerChannel\<close>, whatever it was; a reset puts it at the
  sentinel -1; \<open>correctStepCount\<close> never touches it. Every event keeps
  \<open>currentStep < stepsPerChannel\<close>, unless it is a step-count change to a smaller
  width: after that one the cursor may stay at or above \<open>stepsPerChannel\<close> until the
  next tick.
\<close>

theorem cursor_bounds_amended:
  "list_all (counts_from 1) ops \<Longrightarrow> s = run ops init \<Longrightarrow>
     - 1 \<le> currentStep s \<and>
     0 \<le> currentStep (fst (tick s)) \<and>
     currentStep (fst (tick s)) < stepsPerChannel (fst (tick s)) \<and>
     currentStep (resetCurrentStep s) = - 1 \<and>
     currentStep (resetCurrentStep s) < stepsPerChannel (resetCurrentStep s) \<and>
     (\<forall>d. currentStep (correctStepCount d s) = currentStep s) \<and>
     (\<forall>x. currentStep s < stepsPerChannel s \<and>
          (\<forall>d. x = StepsPerChannelUpdate d \<longrightarrow> stepsPerChannel s \<le> d) \<longrightarrow>
          currentStep (dispatch x s) < stepsPerChannel (dispatch x s))"
proof -
  assume ops: "list_all (counts_from 1) ops" and s: "s = run ops init"
  have b: "- 1 \<le> currentStep s" "1 \<le> stepsPerChannel s"
    using cursor_run[OF ops, of init] unfolding s by (simp_all add: init_def)
  have t: "0 \<le> currentStep (fst (tick s))" "currentStep (fst (tick s)) < stepsPerChannel (fst (tick s))"
    using b by (simp_all add: tick_eq)
  have r: "currentStep (resetCurrentStep s) = - 1"
    "currentStep (resetCurrentStep s) < stepsPerChannel (resetCurrentStep s)"
    using b by (simp_all add: resetCurrentStep_def)
  have c: "currentStep (correctStepCount d s) = currentStep s" for d
    by (simp add: correctStepCount_def)
  have p: "currentStep (dispatch x s) < stepsPerChannel (dispatch x s)"
    if "currentStep s < stepsPerChannel s"
      and "\<forall>d. x = StepsPerChannelUpdate d \<longrightarrow> stepsPerChannel s \<le> d" for x
    using that b unfolding currentStep_dispatch spc_dispatch by (cases x) auto
  from b t r c p show ?thesis by blast
qed

theorem cursor_bounds_amended_witness:
  "list_all (counts_from 1) [TempoStep, TempoStep, TempoStep, StepsPerChannelUpdate 2] \<and>
   currentStep (run [TempoStep, TempoStep, TempoStep, StepsPerChannelUpdate 2] init) = 2 \<and>
   stepsPerChannel (run [TempoStep, TempoStep, TempoStep, StepsPerChannelUpdate 2] init) = 2 \<and>
   currentStep (fst (tick (run [TempoStep, TempoStep, TempoStep, StepsPerChannelUpdate 2] init))) = 0 \<and>
   currentStep (fst (tick (run [TempoStep, TempoStep, TempoStep, StepsPerChannelUpdate 2] init)))
     < stepsPerChannel (fst (tick (run [TempoStep, TempoStep, TempoStep, StepsPerChannelUpdate 2] init)))"
proof -
  let ?ops = "[TempoStep, TempoStep, TempoStep, StepsPerChannelUpdate 2]"
  have h: "list_all (counts_from 1) ?ops" by simp
  have v: "currentStep (run ?ops init) = 2" "stepsPerChannel (run ?ops init) = 2"
    "currentStep (fst (tick (run ?ops init))) = 0"
    by (simp_all add: init_def tick_eq correctStepCount_def)
  from cursor_bounds_amended[OF h refl] h v show ?thesis by blast
qed

text \<open>
  Claim C4 (index consistency). In every store \<open>s\<close> reached from the initial one by a
  sequence of events: no channel id occurs at two positions of \<open>patterns\<close>; the index
  maps the id of the channel at position \<open>i\<close> to \<open>i\<close>, and \<open>getChannelById\<close>
  returns that channel; whatever \<open>getChannelById\<close> returns is a channel of
  \<open>patterns\<close> with the id asked for; an id that is not in \<open>patterns\<close> is not found.
\<close>

theorem index_consistency:
  "s = run ops init \<Longrightarrow>
     distinct (map channelId (patterns s)) \<and>
     (\<forall>i < length (patterns s).
        channelIndex s (channelId (patterns s ! i)) = Some i \<and>
        getChannelById s (channelId (patterns s ! i)) = Some (patterns s ! i)) \<and>
     (\<forall>cid p. getChannelById s cid = Some p \<longrightarrow> channelId p = cid \<and> p \<in> set (patterns s)) \<and>
     (\<forall>cid. cid \<notin> channelId ` set (patterns s) \<longrightarrow> getChannelById s cid = None)"
proof -
  assume s: "s = run ops init"
  have ok: "index_ok s"
    unfolding s by (rule index_ok_run[OF index_ok_init])
  have d: "distinct (map channelId (patterns s))"
    using ok by (simp add: index_ok_def)
  have r: "getChannelById s cid = map_option (\<lambda>i. patterns s ! i) (channelIndex s cid)" for cid
    by (simp add: getChannelById_def channelRef_index_ok[OF ok])
  have a: "channelIndex s (channelId (patterns s ! i)) = Some i \<and>
        getChannelById s (channelId (patterns s ! i)) = Some (patterns s ! i)"
    if "i < length (patterns s)" for i
    using index_ok_nth[OF ok that] by (simp add: r)
  have b: "channelId p = cid \<and> p \<in> set (patterns s)" if "getChannelById s cid = Some p" for cid p
  proof -
    from that obtain i where i: "channelIndex s cid = Some i" "p = patterns s ! i"
      by (auto simp: r)
    with index_ok_Some[OF ok i(1)] show ?thesis by simp
  qed
  have c: "getChannelById s cid = None" if "cid \<notin> channelId ` set (patterns s)" for cid
    using that index_ok_None[OF ok, of cid] by (simp add: r)
  from d a b c show ?thesis by blast
qed

theorem index_consistency_witness:
  "map channelId (patterns (run [ChannelAdded 5, ChannelAdded 7, ChannelAdded 9, ChannelRemoved 5] init)) = [7, 9] \<and>
   channelIndex (run [ChannelAdded 5, ChannelAdded 7, ChannelAdded 9, ChannelRemoved 5] init) 9 = Some 1 \<and>
   map_option channelId
     (getChannelById (run [ChannelAdded 5, ChannelAdded 7, ChannelAdded 9, ChannelRemoved 5] init) 9) = Some 9 \<and>
   getChannelById (run [ChannelAdded 5, ChannelAdded 7, ChannelAdded 9, ChannelRemoved 5] init) 5 = None"
proof -
  define s where "s = run [ChannelAdded 5, ChannelAdded 7, ChannelAdded 9, ChannelRemoved 5] init"
  have ids: "map channelId (patterns s) = [7, 9]"
    unfolding s_def
    by (simp add: init_def addChannel_def removeChannel_def channelRef_def rehashChannelIndex_def
        js_splice1_def Let_def)
  then obtain p q where pq: "patterns s = [p, q]" "channelId p = 7" "channelId q = 9"
    by auto
  note t = index_consistency[OF s_def]
  from t have all: "\<forall>i<length (patterns s). channelIndex s (channelId (patterns s ! i)) = Some i \<and>
        getChannelById s (channelId (patterns s ! i)) = Some (patterns s ! i)"
    by blast
  have len: "1 < length (patterns s)"
    using pq(1) by simp
  have "channelIndex s (channelId (patterns s ! 1)) = Some 1 \<and>
        getChannelById s (channelId (patterns s ! 1)) = Some (patterns s ! 1)"
    by (rule all[rule_format, OF len])
  then have a: "channelIndex s 9 = Some 1" "map_option channelId (getChannelById s 9) = Some 9"
    using pq by simp_all
  have "(5::int) \<notin> channelId ` set (patterns s)"
    using pq by simp
  then have b: "getChannelById s 5 = None"
    using t by blast
  from ids a b show ?thesis unfolding s_def by blast
qed

text \<open>
  Claim C5 (resize). For every store: growing to \<open>d\<close> keeps the steps of every channel and
  appends \<open>d - stepsPerChannel\<close> times \<open>false\<close>; shrinking to \<open>d\<close> keeps the first
  \<open>d\<close> steps of every channel and drops the rest. From a store of width 16 (every channel
  has 16 steps), resizing to 8 and back to 16 leaves every channel with its first 8 steps
  followed by 8 times \<open>false\<close>: the steps 8 to 15 are all \<open>false\<close>, and the store differs
  from the starting one whenever some step 8 to 15 was on.
\<close>

theorem resize_semantics:
  "(stepsPerChannel s < d \<longrightarrow>
      correctStepCount d s =
        s\<lparr>patterns := map (\<lambda>p. p\<lparr>steps := steps p @ replicate (nat (d - stepsPerChannel s)) False\<rparr>)
                        (patterns s),
          stepsPerChannel := d\<rparr>) \<and>
   (0 \<le> d \<and> d < stepsPerChannel s \<longrightarrow>
      correctStepCount d s =
        s\<lparr>patterns := map (\<lambda>p. p\<lparr>steps := take (nat d) (steps p)\<rparr>) (patterns s),
          stepsPerChannel := d\<rparr>) \<and>
   (stepsPerChannel s = 16 \<and> (\<forall>p \<in> set (patterns s). length (steps p) = 16) \<longrightarrow>
      correctStepCount 16 (correctStepCount 8 s) =
        s\<lparr>patterns := map (\<lambda>p. p\<lparr>steps := take 8 (steps p) @ replicate 8 False\<rparr>) (patterns s)\<rparr> \<and>
      (\<forall>p \<in> set (patterns (correctStepCount 16 (correctStepCount 8 s))).
         length (steps p) = 16 \<and> (\<forall>k \<in> {8..<16}. \<not> steps p ! k)) \<and>
      ((\<exists>p \<in> set (patterns s). \<exists>k \<in> {8..<16}. steps p ! k) \<longrightarrow>
         correctStepCount 16 (correctStepCount 8 s) \<noteq> s))"
proof -
  have g: "stepsPerChannel s < d \<longrightarrow>
      correctStepCount d s =
        s\<lparr>patterns := map (\<lambda>p. p\<lparr>steps := steps p @ replicate (nat (d - stepsPerChannel s)) False\<rparr>)
                        (patterns s),
          stepsPerChannel := d\<rparr>"
    using correctStepCount_grow by blast
  have h: "0 \<le> d \<and> d < stepsPerChannel s \<longrightarrow>
      correctStepCount d s =
        s\<lparr>patterns := map (\<lambda>p. p\<lparr>steps := take (nat d) (steps p)\<rparr>) (patterns s),
          stepsPerChannel := d\<rparr>"
    using correctStepCount_shrink by blast
  have r: "correctStepCount 16 (correctStepCount 8 s) =
        s\<lparr>patterns := map (\<lambda>p. p\<lparr>steps := take 8 (steps p) @ replicate 8 False\<rparr>) (patterns s)\<rparr> \<and>
      (\<forall>p \<in> set (patterns (correctStepCount 16 (correctStepCount 8 s))).
         length (steps p) = 16 \<and> (\<forall>k \<in> {8..<16}. \<not> steps p ! k)) \<and>
      ((\<exists>p \<in> set (patterns s). \<exists>k \<in> {8..<16}. steps p ! k) \<longrightarrow>
         correctStepCount 16 (correctStepCount 8 s) \<noteq> s)"
    if w: "stepsPerChannel s = 16" and l: "\<forall>p \<in> set (patterns s). length (steps p) = 16"
  proof -
    note rt = shrink_grow_16[OF w]
    have pats: "patterns (correctStepCount 16 (correctStepCount 8 s)) =
        map (\<lambda>p. p\<lparr>steps := take 8 (steps p) @ replicate 8 False\<rparr>) (patterns s)"
      unfolding rt by simp
    have tail: "length (steps q) = 16 \<and> (\<forall>k \<in> {8..<16}. \<not> steps q ! k)"
      if "q \<in> set (patterns (correctStepCount 16 (correctStepCount 8 s)))" for q
    proof -
      from that obtain p where p: "p \<in> set (patterns s)"
        and q: "q = p\<lparr>steps := take 8 (steps p) @ replicate 8 False\<rparr>"
        unfolding pats by auto
      from l p have "length (steps p) = 16" by blast
      from shrink_grow_16_tail[OF this] show ?thesis
        unfolding q by simp
    qed
    have lossy: "correctStepCount 16 (correctStepCount 8 s) \<noteq> s"
      if "\<exists>p \<in> set (patterns s). \<exists>k \<in> {8..<16}. steps p ! k"
    proof
      assume e: "correctStepCount 16 (correctStepCount 8 s) = s"
      from that obtain p k where p: "p \<in> set (patterns s)" and k: "k \<in> {8..<16}" "steps p ! k"
        by blast
      from p have "p \<in> set (patterns (correctStepCount 16 (correctStepCount 8 s)))"
        unfolding e .
      from tail[OF this] k show False by blast
    qed
    from rt tail lossy show ?thesis by blast
  qed
  from g h r show ?thesis by blast
qed

theorem resize_semantics_witness:
  "stepsPerChannel (run [ChannelAdded 3, UiStepToggled 3 1 (JBool True), UiStepToggled 3 12 (JBool True)] init) = 16 \<and>
   map steps (patterns (run [ChannelAdded 3, UiStepToggled 3 1 (JBool True), UiStepToggled 3 12 (JBool True)] init)) =
     [[False, True, False, False, False, False, False, False,
       False, False, False, False, True, False, False, False]] \<and>
   map steps (patterns (correctStepCount 16 (correctStepCount 8
     (run [ChannelAdded 3, UiStepToggled 3 1 (JBool True), UiStepToggled 3 12 (JBool True)] init)))) =
     [[False, True, False, False, False, False, False, False,
       False, False, False, False, False, False, False, False]] \<and>
   map steps (patterns (correctStepCount 18
     (run [ChannelAdded 3, UiStepToggled 3 1 (JBool True), UiStepToggled 3 12 (JBool True)] init))) =
     [[False, True, False, False, False, False, False, False,
       False, False, False, False, True, False, False, False, False, False]] \<and>
   map steps (patterns (correctStepCount 2
     (run [ChannelAdded 3, UiStepToggled 3 1 (JBool True), UiStepToggled 3 12 (JBool True)] init))) =
     [[False, True]] \<and>
   correctStepCount 16 (correctStepCount 8
     (run [ChannelAdded 3, UiStepToggled 3 1 (JBool True), UiStepToggled 3 12 (JBool True)] init)) \<noteq>
     run [ChannelAdded 3, UiStepToggled 3 1 (JBool True), UiStepToggled 3 12 (JBool True)] init"
proof -
  define s where "s = run [ChannelAdded 3, UiStepToggled 3 1 (JBool True), UiStepToggled 3 12 (JBool True)] init"
  have w: "stepsPerChannel s = 16"
    unfolding s_def by code_simp
  have st: "map steps (patterns s) =
     [[False, True, False, False, False, False, False, False,
       False, False, False, False, True, False, False, False]]"
    unfolding s_def by code_simp
  then obtain p where p: "patterns s = [p]"
    and sp: "steps p = [False, True, False, False, False, False, False, False,
       False, False, False, False, True, False, False, False]"
    by auto
  have l: "\<forall>p \<in> set (patterns s). length (steps p) = 16"
    unfolding p using sp by simp
  have t: "\<exists>p \<in> set (patterns s). \<exists>k \<in> {8..<16}. steps p ! k"
  proof -
    have "(12::nat) \<in> {8..<16}" "steps p ! 12" unfolding sp by simp_all
    then show ?thesis unfolding p by auto
  qed
  note grow = resize_semantics[of s 18, THEN conjunct1, rule_format]
  note shrink = resize_semantics[of s 2, THEN conjunct2, THEN conjunct1, rule_format]
  note trip = resize_semantics[of s 0, THEN conjunct2, THEN conjunct2, rule_format, OF conjI, OF w l]
  have a: "map steps (patterns (correctStepCount 16 (correctStepCount 8 s))) =
     [[False, True, False, False, False, False, False, False,
       False, False, False, False, False, False, False, False]]"
    unfolding trip[THEN conjunct1] by (simp add: p sp numeral_eq_Suc)
  have b: "map steps (patterns (correctStepCount 18 s)) =
     [[False, True, False, False, False, False, False, False,
       False, False, False, False, True, False, False, False, False, False]]"
    using grow w by (simp add: p sp numeral_eq_Suc)
  have c: "map steps (patterns (correctStepCount 2 s)) = [[False, True]]"
    using shrink w by (simp add: p sp numeral_eq_Suc)
  have d: "correctStepCount 16 (correctStepCount 8 s) \<noteq> s"
    using trip[THEN conjunct2, THEN conjunct2] t by blast
  from w st a b c d show ?thesis unfolding s_def by blast
qed

text \<open>
  Claim C6 (adding a channel). Let \<open>s\<close> be a store reached from the initial one by events
  whose step counts are not negative, and \<open>fresh\<close> the record with the id \<open>cid\<close> and
  \<open>stepsPerChannel\<close> times \<open>false\<close> as its steps. If a channel with the id \<open>cid\<close> is
  in \<open>patterns\<close>, at position \<open>i\<close>, then \<open>addChannel\<close> puts \<open>fresh\<close> at position \<open>i\<close> and
  changes nothing else: not the other channels, not the index, the cursor or the width.
  If there is none, \<open>fresh\<close> is appended to \<open>patterns\<close> and the index is computed anew
  from the longer \<open>patterns\<close>. In both cases a lookup of \<open>cid\<close> then returns \<open>fresh\<close>.
\<close>

theorem addChannel_resets_or_appends:
  "list_all (counts_from 0) ops \<Longrightarrow> s = run ops init \<Longrightarrow>
   fresh = \<lparr>channelId = cid, steps = replicate (nat (stepsPerChannel s)) False\<rparr> \<Longrightarrow>
     int (length (steps fresh)) = stepsPerChannel s \<and>
     (cid \<in> channelId ` set (patterns s) \<longrightarrow>
        (\<exists>i < length (patterns s). channelId (patterns s ! i) = cid \<and>
           addChannel cid s = s\<lparr>patterns := (patterns s)[i := fresh]\<rparr>)) \<and>
     (cid \<notin> channelId ` set (patterns s) \<longrightarrow>
        addChannel cid s =
          s\<lparr>patterns := patterns s @ [fresh],
            channelIndex := rehash_loop 0 (patterns s @ [fresh]) Map.empty\<rparr>) \<and>
     getChannelById (addChannel cid s) cid = Some fresh"
proof -
  assume ops: "list_all (counts_from 0) ops" and s: "s = run ops init"
    and fresh: "fresh = \<lparr>channelId = cid, steps = replicate (nat (stepsPerChannel s)) False\<rparr>"
  have ok: "index_ok s" unfolding s by (rule reachable_ok)
  have w: "0 \<le> stepsPerChannel s" unfolding s by (rule reachable_width[OF ops])
  have a: "int (length (steps fresh)) = stepsPerChannel s"
    using w by (simp add: fresh)
  have b: "\<exists>i < length (patterns s). channelId (patterns s ! i) = cid \<and>
           addChannel cid s = s\<lparr>patterns := (patterns s)[i := fresh]\<rparr>"
    if "cid \<in> channelId ` set (patterns s)"
  proof -
    from index_ok_member[OF ok that] obtain i where i: "i < length (patterns s)"
      "channelId (patterns s ! i) = cid" by blast
    from addChannel_registered[OF ok i] i show ?thesis unfolding fresh by blast
  qed
  have c: "addChannel cid s =
          s\<lparr>patterns := patterns s @ [fresh],
            channelIndex := rehash_loop 0 (patterns s @ [fresh]) Map.empty\<rparr>"
    if "cid \<notin> channelId ` set (patterns s)"
    unfolding fresh by (rule addChannel_unregistered[OF ok that])
  have d: "getChannelById (addChannel cid s) cid = Some fresh"
    unfolding fresh by (rule addChannel_lookup[OF ok])
  from a b c d show ?thesis by blast
qed

theorem addChannel_resets_or_appends_witness:
  "list_all (counts_from 0)
     [ChannelAdded 1, ChannelAdded 2, UiStepToggled 1 0 (JBool True), UiStepToggled 2 1 (JBool True),
      StepsPerChannelUpdate 4] \<and>
   patterns (run [ChannelAdded 1, ChannelAdded 2, UiStepToggled 1 0 (JBool True),
                  UiStepToggled 2 1 (JBool True), StepsPerChannelUpdate 4] init) =
     [\<lparr>channelId = 1, steps = [True, False, False, False]\<rparr>,
      \<lparr>channelId = 2, steps = [False, True, False, False]\<rparr>] \<and>
   patterns (addChannel 1 (run [ChannelAdded 1, ChannelAdded 2, UiStepToggled 1 0 (JBool True),
                  UiStepToggled 2 1 (JBool True), StepsPerChannelUpdate 4] init)) =
     [\<lparr>channelId = 1, steps = [False, False, False, False]\<rparr>,
      \<lparr>channelId = 2, steps = [False, True, False, False]\<rparr>] \<and>
   patterns (addChannel 3 (run [ChannelAdded 1, ChannelAdded 2, UiStepToggled 1 0 (JBool True),
                  UiStepToggled 2 1 (JBool True), StepsPerChannelUpdate 4] init)) =
     [\<lparr>channelId = 1, steps = [True, False, False, False]\<rparr>,
      \<lparr>channelId = 2, steps = [False, True, False, False]\<rparr>,
      \<lparr>channelId = 3, steps = [False, False, False, False]\<rparr>] \<and>
   getChannelById (addChannel 3 (run [ChannelAdded 1, ChannelAdded 2, UiStepToggled 1 0 (JBool True),
                  UiStepToggled 2 1 (JBool True), StepsPerChannelUpdate 4] init)) 3 =
     Some \<lparr>channelId = 3, steps = [False, False, False, False]\<rparr>"
proof -
  define ops where "ops = [ChannelAdded 1, ChannelAdded 2, UiStepToggled 1 0 (JBool True),
                  UiStepToggled 2 1 (JBool True), StepsPerChannelUpdate 4]"
  define s where "s = run ops init"
  have h: "list_all (counts_from 0) ops"
    unfolding ops_def by simp
  have pats: "patterns s =
     [\<lparr>channelId = 1, steps = [True, False, False, False]\<rparr>,
      \<lparr>channelId = 2, steps = [False, True, False, False]\<rparr>]"
    unfolding s_def ops_def by code_simp
  have w: "stepsPerChannel s = 4"
    unfolding s_def ops_def by code_simp
  have r: "replicate (nat (stepsPerChannel s)) False = [False, False, False, False]"
    unfolding w by (simp add: numeral_eq_Suc)
  note one = addChannel_resets_or_appends[OF h s_def refl, of 1, unfolded r]
  note three = addChannel_resets_or_appends[OF h s_def refl, of 3, unfolded r]
  have "(1::int) \<in> channelId ` set (patterns s)"
    unfolding pats by simp
  with one obtain i where i: "i < length (patterns s)" "channelId (patterns s ! i) = 1"
    "addChannel 1 s = s\<lparr>patterns := (patterns s)[i := \<lparr>channelId = 1, steps = [False, False, False, False]\<rparr>]\<rparr>"
    by blast
  have "i = 0"
    using i(1,2) unfolding pats by (cases i) simp_all
  then have a: "patterns (addChannel 1 s) =
     [\<lparr>channelId = 1, steps = [False, False, False, False]\<rparr>,
      \<lparr>channelId = 2, steps = [False, True, False, False]\<rparr>]"
    unfolding i(3) by (simp add: pats)
  have "(3::int) \<notin> channelId ` set (patterns s)"
    unfolding pats by simp
  with three have "addChannel 3 s =
          s\<lparr>patterns := patterns s @ [\<lparr>channelId = 3, steps = [False, False, False, False]\<rparr>],
            channelIndex := rehash_loop 0 (patterns s @ [\<lparr>channelId = 3, steps = [False, False, False, False]\<rparr>]) Map.empty\<rparr>"
    by blast
  then have b: "patterns (addChannel 3 s) =
     [\<lparr>channelId = 1, steps = [True, False, False, False]\<rparr>,
      \<lparr>channelId = 2, steps = [False, True, False, False]\<rparr>,
      \<lparr>channelId = 3, steps = [False, False, False, False]\<rparr>]"
    by (simp add: pats)
  have c: "getChannelById (addChannel 3 s) 3 = Some \<lparr>channelId = 3, steps = [False, False, False, False]\<rparr>"
    using three by blast
  from h pats a b c show ?thesis
    unfolding s_def ops_def by blast
qed

text \<open>
  Claim C7 (removing a channel). Let \<open>s\<close> be a store reached from the initial one. If no
  channel of \<open>patterns\<close> has the id \<open>cid\<close>, \<open>removeChannel\<close> returns the store as it is.
  If one has, \<open>patterns\<close> gets shorter by one. In both cases the new \<open>patterns\<close> are the
  old ones without the channel \<open>cid\<close>, in the same order, the index is the one computed
  from the new \<open>patterns\<close>, and the width and the cursor stay. When a channel \<open>b\<close> other
  than \<open>cid\<close> is added next, the index has no entry for \<open>cid\<close>, a lookup of \<open>cid\<close> finds
  nothing, and the entry for \<open>b\<close> is the position where the channel \<open>b\<close> stands.
\<close>

theorem removeChannel_rebuilds_index:
  "s = run ops init \<Longrightarrow>
     (cid \<notin> channelId ` set (patterns s) \<longrightarrow> removeChannel cid s = s) \<and>
     (cid \<in> channelId ` set (patterns s) \<longrightarrow>
        Suc (length (patterns (removeChannel cid s))) = length (patterns s)) \<and>
     patterns (removeChannel cid s) = filter (\<lambda>p. channelId p \<noteq> cid) (patterns s) \<and>
     channelIndex (removeChannel cid s) = rehash_loop 0 (patterns (removeChannel cid s)) Map.empty \<and>
     stepsPerChannel (removeChannel cid s) = stepsPerChannel s \<and>
     currentStep (removeChannel cid s) = currentStep s \<and>
     (\<forall>b. b \<noteq> cid \<longrightarrow>
        channelIndex (addChannel b (removeChannel cid s)) cid = None \<and>
        getChannelById (addChannel b (removeChannel cid s)) cid = None \<and>
        (\<exists>i < length (patterns (addChannel b (removeChannel cid s))).
           channelIndex (addChannel b (removeChannel cid s)) b = Some i \<and>
           channelId (patterns (addChannel b (removeChannel cid s)) ! i) = b))"
proof -
  assume s: "s = run ops init"
  have ok: "index_ok s" unfolding s by (rule reachable_ok)
  note ok' = index_ok_removeChannel[OF ok, of cid]
  note f = ids_removeChannel[OF ok, of cid]
  have a: "removeChannel cid s = s" if "cid \<notin> channelId ` set (patterns s)"
    using that index_ok_None[OF ok, of cid] by (simp add: removeChannel_absent)
  have b: "Suc (length (patterns (removeChannel cid s))) = length (patterns s)"
    if "cid \<in> channelId ` set (patterns s)"
  proof -
    from index_ok_member[OF ok that] obtain i where i: "i < length (patterns s)"
      "channelIndex s cid = Some i" by blast
    show ?thesis
      unfolding removeChannel_found[OF i(2)] using i(1) by (simp add: js_splice1_def)
  qed
  have c: "channelIndex (removeChannel cid s) = rehash_loop 0 (patterns (removeChannel cid s)) Map.empty"
    using ok' by (simp add: index_ok_def)
  have d: "stepsPerChannel (removeChannel cid s) = stepsPerChannel s"
    "currentStep (removeChannel cid s) = currentStep s"
    using spc_dispatch[of "ChannelRemoved cid" s] currentStep_dispatch[of "ChannelRemoved cid" s]
    by simp_all
  have e: "channelIndex (addChannel b (removeChannel cid s)) cid = None \<and>
        getChannelById (addChannel b (removeChannel cid s)) cid = None \<and>
        (\<exists>i < length (patterns (addChannel b (removeChannel cid s))).
           channelIndex (addChannel b (removeChannel cid s)) b = Some i \<and>
           channelId (patterns (addChannel b (removeChannel cid s)) ! i) = b)"
    if "b \<noteq> cid" for b
  proof -
    let ?t = "addChannel b (removeChannel cid s)"
    note ok'' = index_ok_addChannel[OF ok', of b]
    have ids: "channelId ` set (patterns ?t) = insert b (channelId ` set (patterns (removeChannel cid s)))"
      by (rule ids_addChannel[OF ok'])
    have "cid \<notin> channelId ` set (patterns (removeChannel cid s))"
      unfolding f by auto
    with that have "cid \<notin> channelId ` set (patterns ?t)"
      unfolding ids by simp
    then have n: "channelIndex ?t cid = None"
      using index_ok_None[OF ok'', of cid] by simp
    then have g: "getChannelById ?t cid = None"
      by (simp add: getChannelById_def channelRef_def)
    have "b \<in> channelId ` set (patterns ?t)"
      unfolding ids by simp
    from index_ok_member[OF ok'' this] n g show ?thesis by blast
  qed
  from a b c d e f show ?thesis by blast
qed

theorem removeChannel_rebuilds_index_witness:
  "removeChannel 4 (run [ChannelAdded 5, ChannelAdded 7, ChannelAdded 9] init) =
     run [ChannelAdded 5, ChannelAdded 7, ChannelAdded 9] init \<and>
   map channelId (patterns (run [ChannelAdded 5, ChannelAdded 7, ChannelAdded 9] init)) = [5, 7, 9] \<and>
   map channelId (patterns (removeChannel 5 (run [ChannelAdded 5, ChannelAdded 7, ChannelAdded 9] init))) = [7, 9] \<and>
   channelIndex (addChannel 6 (removeChannel 5 (run [ChannelAdded 5, ChannelAdded 7, ChannelAdded 9] init))) 5 = None \<and>
   channelIndex (addChannel 6 (removeChannel 5 (run [ChannelAdded 5, ChannelAdded 7, ChannelAdded 9] init))) 6 = Some 2"
proof -
  define s where "s = run [ChannelAdded 5, ChannelAdded 7, ChannelAdded 9] init"
  have ids: "map channelId (patterns s) = [5, 7, 9]"
    unfolding s_def by code_simp
  then obtain p q r where pats: "patterns s = [p, q, r]" "channelId p = 5" "channelId q = 7" "channelId r = 9"
    by auto
  note four = removeChannel_rebuilds_index[OF s_def, of 4]
  note five = removeChannel_rebuilds_index[OF s_def, of 5]
  have "(4::int) \<notin> channelId ` set (patterns s)"
    unfolding pats(1) using pats by simp
  with four have a: "removeChannel 4 s = s" by blast
  from five have "patterns (removeChannel 5 s) = filter (\<lambda>p. channelId p \<noteq> 5) (patterns s)"
    by blast
  then have rem: "patterns (removeChannel 5 s) = [q, r]"
    unfolding pats(1) using pats by simp
  then have b: "map channelId (patterns (removeChannel 5 s)) = [7, 9]"
    using pats by simp
  from five have six: "channelIndex (addChannel 6 (removeChannel 5 s)) 5 = None \<and>
      (\<exists>i < length (patterns (addChannel 6 (removeChannel 5 s))).
           channelIndex (addChannel 6 (removeChannel 5 s)) 6 = Some i \<and>
           channelId (patterns (addChannel 6 (removeChannel 5 s)) ! i) = 6)"
    by simp
  then obtain i where i: "i < length (patterns (addChannel 6 (removeChannel 5 s)))"
    "channelIndex (addChannel 6 (removeChannel 5 s)) 6 = Some i"
    "channelId (patterns (addChannel 6 (removeChannel 5 s)) ! i) = 6"
    by blast
  have "map channelId (patterns (addChannel 6 (removeChannel 5 s))) = [7, 9, 6]"
    unfolding s_def by code_simp
  then obtain q' r' t where t: "patterns (addChannel 6 (removeChannel 5 s)) = [q', r', t]"
    "channelId q' = 7" "channelId r' = 9" "channelId t = 6"
    by auto
  have "i = 2"
  proof -
    from i(1) have "i = 0 \<or> i = 1 \<or> i = 2" unfolding t(1) by auto
    with i(3) t show ?thesis by auto
  qed
  with i(2) have c: "channelIndex (addChannel 6 (removeChannel 5 s)) 6 = Some 2" by simp
  from a ids b six c show ?thesis unfolding s_def by blast
qed

text \<open>
  Claim C8 (toggling a step). Let \<open>s\<close> be a store reached from the initial one. If no
  channel of \<open>patterns\<close> has the id \<open>cid\<close>, \<open>stepToggled\<close> returns the store as it is. If
  the channel at position \<open>i\<close> has the id, and \<open>stepIndex\<close> is outside
  \<open>[0, steps.length)\<close> of that channel, the store is returned as it is as well; inside,
  the step \<open>stepIndex\<close> of that channel becomes the boolean cast of \<open>on\<close> and nothing
  else changes. No steps array ever changes its length. The value stored, read back from
  the new store, is \<open>b\<close> for the boolean \<open>b\<close>, \<open>false\<close> for \<^verbatim>\<open>undefined\<close>,
  \<^verbatim>\<open>null\<close>, the number 0 and the empty string, and \<open>true\<close> for every other number
  and string.
\<close>

theorem stepToggled_sets_or_ignores:
  "s = run ops init \<Longrightarrow>
     (cid \<notin> channelId ` set (patterns s) \<longrightarrow> stepToggled cid k on s = s) \<and>
     (\<forall>i < length (patterns s). channelId (patterns s ! i) = cid \<longrightarrow>
        stepToggled cid k on s =
          (if 0 \<le> k \<and> k < int (length (steps (patterns s ! i)))
           then s\<lparr>patterns := (patterns s)
                   [i := (patterns s ! i)
                      \<lparr>steps := (steps (patterns s ! i))[nat k := to_boolean on]\<rparr>]\<rparr>
           else s)) \<and>
     map (\<lambda>p. length (steps p)) (patterns (stepToggled cid k on s)) =
       map (\<lambda>p. length (steps p)) (patterns s) \<and>
     (\<forall>i < length (patterns s).
        channelId (patterns s ! i) = cid \<and> 0 \<le> k \<and> k < int (length (steps (patterns s ! i))) \<longrightarrow>
        js_get (steps (patterns (stepToggled cid k on s) ! i)) k =
          Some (case on of
                  JUndefined \<Rightarrow> False
                | JNull \<Rightarrow> False
                | JBool b \<Rightarrow> b
                | JNumber n \<Rightarrow> n \<noteq> 0
                | JString str \<Rightarrow> str \<noteq> []))"
proof -
  assume s: "s = run ops init"
  have ok: "index_ok s" unfolding s by (rule reachable_ok)
  have a: "stepToggled cid k on s = s" if "cid \<notin> channelId ` set (patterns s)"
  proof -
    have "channelRef s cid = None"
      using index_ok_None[OF ok, of cid] that ok by (simp add: channelRef_index_ok)
    then show ?thesis by (rule stepToggled_absent)
  qed
  have b: "stepToggled cid k on s =
          (if 0 \<le> k \<and> k < int (length (steps (patterns s ! i)))
           then s\<lparr>patterns := (patterns s)
                   [i := (patterns s ! i)
                      \<lparr>steps := (steps (patterns s ! i))[nat k := to_boolean on]\<rparr>]\<rparr>
           else s)"
    if i: "i < length (patterns s)" "channelId (patterns s ! i) = cid" for i
  proof -
    have r: "channelRef s cid = Some i"
      using index_ok_nth[OF ok i(1)] i ok by (simp add: channelRef_index_ok)
    show ?thesis
    proof (cases "0 \<le> k \<and> k < int (length (steps (patterns s ! i)))")
      case True
      then show ?thesis using stepToggled_found[OF r, of k on] by simp
    next
      case False
      then show ?thesis using stepToggled_range[OF r, of k on] by auto
    qed
  qed
  have c: "map (\<lambda>p. length (steps p)) (patterns (stepToggled cid k on s)) =
       map (\<lambda>p. length (steps p)) (patterns s)"
  proof (cases "cid \<in> channelId ` set (patterns s)")
    case False
    then show ?thesis by (simp add: a)
  next
    case True
    from index_ok_member[OF ok True] obtain i where i: "i < length (patterns s)"
      "channelId (patterns s ! i) = cid" by blast
    show ?thesis
      unfolding b[OF i] using i(1) by (intro nth_equalityI) (auto simp: nth_list_update)
  qed
  have d: "js_get (steps (patterns (stepToggled cid k on s) ! i)) k =
          Some (case on of
                  JUndefined \<Rightarrow> False
                | JNull \<Rightarrow> False
                | JBool b \<Rightarrow> b
                | JNumber n \<Rightarrow> n \<noteq> 0
                | JString str \<Rightarrow> str \<noteq> [])"
    if i: "i < length (patterns s)" "channelId (patterns s ! i) = cid"
      and k: "0 \<le> k" "k < int (length (steps (patterns s ! i)))" for i
  proof -
    have "steps (patterns (stepToggled cid k on s) ! i) =
        (steps (patterns s ! i))[nat k := to_boolean on]"
      unfolding b[OF i] using i(1) k by simp
    then have "js_get (steps (patterns (stepToggled cid k on s) ! i)) k = Some (to_boolean on)"
      using k by (simp add: js_get_def)
    then show ?thesis by (cases on) simp_all
  qed
  from a b c d show ?thesis by blast
qed

text \<open>
  After channel 2 had its step 1 switched on: an unknown id and the step indices 3 and -1
  change nothing; the number 5 switches step 0 on; \<open>false\<close>, the number 0,
  \<^verbatim>\<open>undefined\<close> and the empty string each switch step 1 off again.
\<close>

theorem stepToggled_sets_or_ignores_witness:
  "patterns (run [ChannelAdded 1, ChannelAdded 2, StepsPerChannelUpdate 3, UiStepToggled 2 1 (JBool True)] init) =
     [\<lparr>channelId = 1, steps = [False, False, False]\<rparr>,
      \<lparr>channelId = 2, steps = [False, True, False]\<rparr>] \<and>
   stepToggled 9 0 (JBool True)
       (run [ChannelAdded 1, ChannelAdded 2, StepsPerChannelUpdate 3, UiStepToggled 2 1 (JBool True)] init) =
     run [ChannelAdded 1, ChannelAdded 2, StepsPerChannelUpdate 3, UiStepToggled 2 1 (JBool True)] init \<and>
   stepToggled 2 3 (JBool True)
       (run [ChannelAdded 1, ChannelAdded 2, StepsPerChannelUpdate 3, UiStepToggled 2 1 (JBool True)] init) =
     run [ChannelAdded 1, ChannelAdded 2, StepsPerChannelUpdate 3, UiStepToggled 2 1 (JBool True)] init \<and>
   stepToggled 2 (- 1) (JBool True)
       (run [ChannelAdded 1, ChannelAdded 2, StepsPerChannelUpdate 3, UiStepToggled 2 1 (JBool True)] init) =
     run [ChannelAdded 1, ChannelAdded 2, StepsPerChannelUpdate 3, UiStepToggled 2 1 (JBool True)] init \<and>
   patterns (stepToggled 2 0 (JNumber 5)
       (run [ChannelAdded 1, ChannelAdded 2, StepsPerChannelUpdate 3, UiStepToggled 2 1 (JBool True)] init)) =
     [\<lparr>channelId = 1, steps = [False, False, False]\<rparr>,
      \<lparr>channelId = 2, steps = [True, True, False]\<rparr>] \<and>
   patterns (stepToggled 2 1 (JBool False)
       (run [ChannelAdded 1, ChannelAdded 2, StepsPerChannelUpdate 3, UiStepToggled 2 1 (JBool True)] init)) =
     [\<lparr>channelId = 1, steps = [False, False, False]\<rparr>,
      \<lparr>channelId = 2, steps = [False, False, False]\<rparr>] \<and>
   js_get (steps (patterns (stepToggled 2 1 (JBool False)
       (run [ChannelAdded 1, ChannelAdded 2, StepsPerChannelUpdate 3, UiStepToggled 2 1 (JBool True)] init)) ! 1)) 1 =
     Some False \<and>
   js_get (steps (patterns (stepToggled 2 1 (JNumber 0)
       (run [ChannelAdded 1, ChannelAdded 2, StepsPerChannelUpdate 3, UiStepToggled 2 1 (JBool True)] init)) ! 1)) 1 =
     Some False \<and>
   js_get (steps (patterns (stepToggled 2 1 JUndefined
       (run [ChannelAdded 1, ChannelAdded 2, StepsPerChannelUpdate 3, UiStepToggled 2 1 (JBool True)] init)) ! 1)) 1 =
     Some False \<and>
   js_get (steps (patterns (stepToggled 2 1 (JString [])
       (run [ChannelAdded 1, ChannelAdded 2, StepsPerChannelUpdate 3, UiStepToggled 2 1 (JBool True)] init)) ! 1)) 1 =
     Some False"
proof -
  define s where
    "s = run [ChannelAdded 1, ChannelAdded 2, StepsPerChannelUpdate 3, UiStepToggled 2 1 (JBool True)] init"
  have pats: "patterns s =
     [\<lparr>channelId = 1, steps = [False, False, False]\<rparr>,
      \<lparr>channelId = 2, steps = [False, True, False]\<rparr>]"
    unfolding s_def by code_simp
  have len: "1 < length (patterns s)" and id: "channelId (patterns s ! 1) = 2"
    unfolding pats by simp_all
  have in0: "(0::int) \<le> 0" "(0::int) < int (length (steps (patterns s ! 1)))"
    and in1: "(0::int) \<le> 1" "(1::int) < int (length (steps (patterns s ! 1)))"
    unfolding pats by simp_all
  have "(9::int) \<notin> channelId ` set (patterns s)"
    unfolding pats by simp
  with stepToggled_sets_or_ignores[OF s_def, of 9 0 "JBool True"]
  have a: "stepToggled 9 0 (JBool True) s = s" by blast
  have found: "stepToggled 2 k on s =
          (if 0 \<le> k \<and> k < int (length (steps (patterns s ! 1)))
           then s\<lparr>patterns := (patterns s)
                   [1 := (patterns s ! 1)
                      \<lparr>steps := (steps (patterns s ! 1))[nat k := to_boolean on]\<rparr>]\<rparr>
           else s)" for k on
    using stepToggled_sets_or_ignores[OF s_def, of 2 k on] len id by blast
  have stored: "js_get (steps (patterns (stepToggled 2 1 on s) ! 1)) 1 =
          Some (case on of
                  JUndefined \<Rightarrow> False
                | JNull \<Rightarrow> False
                | JBool b \<Rightarrow> b
                | JNumber n \<Rightarrow> n \<noteq> 0
                | JString str \<Rightarrow> str \<noteq> [])" for on
    using stepToggled_sets_or_ignores[OF s_def, of 2 1 on] len id in1 by blast
  have b: "stepToggled 2 3 (JBool True) s = s"
    unfolding found by (simp add: pats)
  have c: "stepToggled 2 (- 1) (JBool True) s = s"
    unfolding found by simp
  have d: "patterns (stepToggled 2 0 (JNumber 5) s) =
     [\<lparr>channelId = 1, steps = [False, False, False]\<rparr>,
      \<lparr>channelId = 2, steps = [True, True, False]\<rparr>]"
    unfolding found by (simp add: pats)
  have e: "patterns (stepToggled 2 1 (JBool False) s) =
     [\<lparr>channelId = 1, steps = [False, False, False]\<rparr>,
      \<lparr>channelId = 2, steps = [False, False, False]\<rparr>]"
    unfolding found by (simp add: pats)
  have f: "js_get (steps (patterns (stepToggled 2 1 (JBool False) s) ! 1)) 1 = Some False"
    "js_get (steps (patterns (stepToggled 2 1 (JNumber 0) s) ! 1)) 1 = Some False"
    "js_get (steps (patterns (stepToggled 2 1 JUndefined s) ! 1)) 1 = Some False"
    "js_get (steps (patterns (stepToggled 2 1 (JString []) s) ! 1)) 1 = Some False"
    unfolding stored by simp_all
  from pats a b c d e f show ?thesis unfolding s_def by blast
qed

text \<open>
  Claim C9 (clear). For every store, \<open>clearPattern\<close> changes nothing but the steps of the
  channels, which all become \<open>false\<close> throughout, as many as \<open>stepsPerChannel\<close> says
  (none when \<open>stepsPerChannel\<close> is negative); the channels and their order, the index,
  the cursor and the step count stay, and clearing twice is clearing once.
\<close>

theorem clearAll_idempotent:
  "clearPattern s =
     s\<lparr>patterns := map (\<lambda>p. p\<lparr>steps := replicate (nat (stepsPerChannel s)) False\<rparr>) (patterns s)\<rparr> \<and>
   (0 \<le> stepsPerChannel s \<longrightarrow>
      (\<forall>p \<in> set (patterns (clearPattern s)). int (length (steps p)) = stepsPerChannel s)) \<and>
   map channelId (patterns (clearPattern s)) = map channelId (patterns s) \<and>
   channelIndex (clearPattern s) = channelIndex s \<and>
   currentStep (clearPattern s) = currentStep s \<and>
   stepsPerChannel (clearPattern s) = stepsPerChannel s \<and>
   clearPattern (clearPattern s) = clearPattern s"
  by (simp add: clearPattern_eq o_def)

theorem clearAll_idempotent_witness:
  "(0::int) \<le> 4 \<and>
   patterns (clearPattern \<lparr>patterns = [\<lparr>channelId = 1, steps = [True, False, True, True]\<rparr>],
         channelIndex = [1 \<mapsto> 0], currentStep = 2, stepsPerChannel = 4\<rparr>) =
     [\<lparr>channelId = 1, steps = [False, False, False, False]\<rparr>] \<and>
   clearPattern (clearPattern \<lparr>patterns = [\<lparr>channelId = 1, steps = [True, False, True, True]\<rparr>],
         channelIndex = [1 \<mapsto> 0], currentStep = 2, stepsPerChannel = 4\<rparr>) =
     clearPattern \<lparr>patterns = [\<lparr>channelId = 1, steps = [True, False, True, True]\<rparr>],
         channelIndex = [1 \<mapsto> 0], currentStep = 2, stepsPerChannel = 4\<rparr>"
proof -
  let ?s = "\<lparr>patterns = [\<lparr>channelId = 1, steps = [True, False, True, True]\<rparr>],
         channelIndex = [1 \<mapsto> 0], currentStep = 2, stepsPerChannel = 4\<rparr>"
  note c = clearAll_idempotent[of ?s]
  have a: "patterns (clearPattern ?s) = [\<lparr>channelId = 1, steps = [False, False, False, False]\<rparr>]"
    using c by (simp add: numeral_eq_Suc)
  have b: "clearPattern (clearPattern ?s) = clearPattern ?s"
    using c by blast
  have "(0::int) \<le> 4" by simp
  with a b show ?thesis by blast
qed

text \<open>
  Claim C10 (initial state). The store starts with no channel, an empty index, the cursor
  at the sentinel -1 and a width of 16 steps.
\<close>

theorem initial_state:
  "patterns init = [] \<and> channelIndex init = Map.empty \<and> currentStep init = - 1 \<and>
   stepsPerChannel init = 16"
  by (simp add: init_def)

end
